theory Spec2Isabelle
  imports Complex_Main
begin

section \<open>Characters\<close>

text \<open>
  A Python \<open>str\<close> is a sequence of code points. The model covers the code points below
  256: a \<^typ>\<open>char\<close> is the code point of that number (Latin-1). On this range the
  character classes of Python's \<open>re\<close> module and of \<open>str.strip\<close> are the finite sets
  written out below: \<open>\d\<close> is \<open>0\<close>..\<open>9\<close>, \<open>\s\<close> and the characters \<open>strip\<close>
  removes are the twelve code points of \<open>spaces\<close>, and under \<open>re.IGNORECASE\<close> a
  letter of the pattern matches exactly its two ASCII cases.
\<close>

definition digit_chars :: string where
  "digit_chars = ''0123456789''"

definition upper_chars :: string where
  "upper_chars = ''ABCDEFGHIJKLMNOPQRSTUVWXYZ''"

definition lower_chars :: string where
  "lower_chars = ''abcdefghijklmnopqrstuvwxyz''"

definition spaces :: string where
  "spaces = [CHR 0x09, CHR 0x0A, CHR 0x0B, CHR 0x0C, CHR 0x0D,
             CHR 0x1C, CHR 0x1D, CHR 0x1E, CHR 0x1F, CHR 0x20, CHR 0x85, CHR 0xA0]"

definition is_digit :: "char \<Rightarrow> bool" where
  "is_digit c = (c \<in> set digit_chars)"

definition is_space :: "char \<Rightarrow> bool" where
  "is_space c = (c \<in> set spaces)"

definition lower :: "char \<Rightarrow> char" where
  "lower c = (case map_of (zip upper_chars lower_chars) c of None \<Rightarrow> c | Some l \<Rightarrow> l)"

text \<open>\<open>[A-Z]\<close> and \<open>[A-Z0-9]\<close> under \<open>re.IGNORECASE\<close>.\<close>

definition is_letter_ci :: "char \<Rightarrow> bool" where
  "is_letter_ci c = (lower c \<in> set lower_chars)"

definition is_alnum_ci :: "char \<Rightarrow> bool" where
  "is_alnum_ci c = (is_letter_ci c \<or> is_digit c)"

section \<open>Regular expressions as backtracking matchers\<close>

text \<open>
  A pattern is a matcher in continuation-passing style: it is given what follows it in
  the pattern (the continuation, applied to the rest of the input) and the input, and
  answers with the first success in the order in which Python's backtracking engine
  tries the alternatives: a greedy quantifier tries one more repetition before it tries
  to stop, an alternation tries its branches from left to right.
\<close>

type_synonym 'a cont = "string \<Rightarrow> 'a option"
type_synonym 'a rx = "'a cont \<Rightarrow> string \<Rightarrow> 'a option"

definition orelse :: "'a option \<Rightarrow> 'a option \<Rightarrow> 'a option" where
  "orelse a b = (case a of None \<Rightarrow> b | Some v \<Rightarrow> Some v)"

text \<open>One character of a class.\<close>

definition one :: "(char \<Rightarrow> bool) \<Rightarrow> 'a rx" where
  "one P k s = (case s of [] \<Rightarrow> None | c # cs \<Rightarrow> if P c then k cs else None)"

text \<open>A literal string, case-sensitive and under \<open>re.IGNORECASE\<close>.\<close>

primrec lit :: "string \<Rightarrow> 'a rx" where
  "lit [] k s = k s"
| "lit (c # cs) k s = one (\<lambda>x. x = c) (lit cs k) s"

primrec lit_ci :: "string \<Rightarrow> 'a rx" where
  "lit_ci [] k s = k s"
| "lit_ci (c # cs) k s = one (\<lambda>x. lower x = lower c) (lit_ci cs k) s"

text \<open>Concatenation \<open>ab\<close> and alternation \<open>a|b\<close>.\<close>

definition sq :: "'a rx \<Rightarrow> 'a rx \<Rightarrow> 'a rx" where
  "sq a b k s = a (b k) s"

definition alt :: "'a rx \<Rightarrow> 'a rx \<Rightarrow> 'a rx" where
  "alt a b k s = orelse (a k s) (b k s)"

text \<open>\<open>a{n}\<close>, and the greedy \<open>a{0,n}\<close>, \<open>a{lo,hi}\<close>, \<open>a?\<close>.\<close>

primrec times :: "nat \<Rightarrow> 'a rx \<Rightarrow> 'a rx" where
  "times 0 a k s = k s"
| "times (Suc n) a k s = a (times n a k) s"

primrec upto :: "nat \<Rightarrow> 'a rx \<Rightarrow> 'a rx" where
  "upto 0 a k s = k s"
| "upto (Suc n) a k s = orelse (a (upto n a k) s) (k s)"

definition rep :: "nat \<Rightarrow> nat \<Rightarrow> 'a rx \<Rightarrow> 'a rx" where
  "rep lo hi a = sq (times lo a) (upto (hi - lo) a)"

definition opt :: "'a rx \<Rightarrow> 'a rx" where
  "opt a = upto 1 a"

text \<open>
  The greedy \<open>a*\<close>, \<open>a+\<close> and \<open>a{n,}\<close>. Every starred pattern of this program consumes
  at least one character in each repetition, so a star repeats at most as many times as
  there are characters left.
\<close>

definition star :: "'a rx \<Rightarrow> 'a rx" where
  "star a k s = upto (length s) a k s"

definition plus :: "'a rx \<Rightarrow> 'a rx" where
  "plus a = sq a (star a)"

definition at_least :: "nat \<Rightarrow> 'a rx \<Rightarrow> 'a rx" where
  "at_least n a = sq (times n a) (star a)"

text \<open>
  \<open>$\<close> without \<open>re.MULTILINE\<close>: the end of the string, or just before a newline that
  ends the string.
\<close>

definition dollar :: "'a rx" where
  "dollar k s = (if s = [] \<or> s = [CHR 0x0A] then k s else None)"

text \<open>
  A capturing group: the continuation is given the text the group matched, the part of
  the input between the group's start and its end.
\<close>

definition capture :: "'a rx \<Rightarrow> (string \<Rightarrow> 'a cont) \<Rightarrow> 'a cont" where
  "capture a k s = a (\<lambda>r. k (take (length s - length r) s) r) s"

section \<open>\<open>re.sub\<close> with an empty replacement, and \<open>re.findall\<close>\<close>

text \<open>
  Both scan the text from left to right. \<open>m\<close> is the pattern tried at one position: it
  answers with the rest of the text after the match (and for \<open>findall\<close> with the text of
  the pattern's group). After a match the scan goes on behind it; where there is none the
  character is kept (\<open>sub\<close>) or skipped (\<open>findall\<close>). The patterns of this program match
  at least one character; for a match of no character the scan moves on by one character.
\<close>

function re_sub_del :: "(string \<Rightarrow> string option) \<Rightarrow> string \<Rightarrow> string" where
  "re_sub_del m s =
     (case m s of
        Some r \<Rightarrow>
          if length r < length s then re_sub_del m r
          else (case s of [] \<Rightarrow> [] | c # cs \<Rightarrow> c # re_sub_del m cs)
      | None \<Rightarrow> (case s of [] \<Rightarrow> [] | c # cs \<Rightarrow> c # re_sub_del m cs))"
  by pat_completeness auto
termination
  by (relation "measure (\<lambda>(m, s). length s)") auto

function findall :: "(string \<Rightarrow> (string \<times> string) option) \<Rightarrow> string \<Rightarrow> string list" where
  "findall m s =
     (case m s of
        Some (g, r) \<Rightarrow>
          if length r < length s then g # findall m r
          else g # (case s of [] \<Rightarrow> [] | c # cs \<Rightarrow> findall m cs)
      | None \<Rightarrow> (case s of [] \<Rightarrow> [] | c # cs \<Rightarrow> findall m cs))"
  by pat_completeness auto
termination
  by (relation "measure (\<lambda>(m, s). length s)") auto

declare re_sub_del.simps [simp del]
declare findall.simps [simp del]

section \<open>The text normalizer\<close>

text \<open>
  Line 130 of \<open>app.py\<close>:
  \<^verbatim>\<open>re.sub(r'(was|orig|originally|save|you save|msrp)', '', text, flags=re.IGNORECASE)\<close>
\<close>

definition noise :: "'a rx" where
  "noise = alt (lit_ci ''was'') (alt (lit_ci ''orig'') (alt (lit_ci ''originally'')
             (alt (lit_ci ''save'') (alt (lit_ci ''you save'') (lit_ci ''msrp'')))))"

definition normalize_text :: "string \<Rightarrow> string" where
  "normalize_text text = re_sub_del (noise Some) text"

section \<open>The price extractor\<close>

text \<open>
  The numeric shape shared by the three patterns of lines 134 to 136,
  \<^verbatim>\<open>\d{1,3}(?:,\d{3})*\.?\d{0,2}\<close>, and the patterns themselves, each with one group:
  \<^verbatim>\<open>\$(N)\<close>, \<^verbatim>\<open>(N)\s*USD\<close> and \<^verbatim>\<open>(N)\<close>. A pattern tried at one position
  answers with the text of its group and the rest of the input behind the match.
\<close>

definition number :: "'a rx" where
  "number = sq (rep 1 3 (one is_digit))
              (sq (star (sq (lit '','') (times 3 (one is_digit))))
                  (sq (opt (lit ''.'')) (rep 0 2 (one is_digit))))"

definition dollar_pattern :: "string \<Rightarrow> (string \<times> string) option" where
  "dollar_pattern = lit ''$'' (capture number (\<lambda>g r. Some (g, r)))"

definition usd_pattern :: "string \<Rightarrow> (string \<times> string) option" where
  "usd_pattern = capture number (\<lambda>g. sq (star (one is_space)) (lit ''USD'') (\<lambda>r. Some (g, r)))"

definition bare_pattern :: "string \<Rightarrow> (string \<times> string) option" where
  "bare_pattern = capture number (\<lambda>g r. Some (g, r))"

definition price_patterns :: "(string \<Rightarrow> (string \<times> string) option) list" where
  "price_patterns = [dollar_pattern, usd_pattern, bare_pattern]"

text \<open>
  \<open>float\<close> on the strings a group can give once the commas are gone: digits, then
  possibly a point and further digits, with a digit somewhere. Any other string is a
  \<open>ValueError\<close> here (\<open>None\<close>). The value is the decimal number itself. Python rounds
  it to the nearest double; the rounding is monotone and the numbers at hand are
  multiples of one hundredth, so the comparisons with \<open>0.01\<close> and \<open>10000\<close> come out
  the same on the doubles as on the numbers.
\<close>

definition digit_val :: "char \<Rightarrow> nat" where
  "digit_val c = of_char c - 48"

definition nat_of_digits :: "string \<Rightarrow> nat" where
  "nat_of_digits ds = foldl (\<lambda>a c. 10 * a + digit_val c) 0 ds"

definition float_of :: "string \<Rightarrow> real option" where
  "float_of s =
     (let ip = takeWhile is_digit s; rest = dropWhile is_digit s in
      case rest of
        [] \<Rightarrow> if ip = [] then None else Some (real (nat_of_digits ip))
      | c # fp \<Rightarrow>
          if c = CHR ''.'' \<and> list_all is_digit fp \<and> (ip \<noteq> [] \<or> fp \<noteq> [])
          then Some (real (nat_of_digits ip) + real (nat_of_digits fp) / 10 ^ length fp)
          else None)"

text \<open>\<open>s.replace(',', '')\<close>.\<close>

definition remove_commas :: "string \<Rightarrow> string" where
  "remove_commas s = filter (\<lambda>c. c \<noteq> CHR '','') s"

definition reasonable :: "real \<Rightarrow> bool" where
  "reasonable price = (1 / 100 \<le> price \<and> price \<le> 10000)"

text \<open>
  The loop of lines 139 to 149 over the patterns. A pattern with no match is passed
  over; so is one whose first match fails to parse (\<open>continue\<close>) and one whose first
  match is out of range (the \<open>if\<close> has no \<open>else\<close>, the loop goes on).
\<close>

fun try_patterns :: "(string \<Rightarrow> (string \<times> string) option) list \<Rightarrow> string \<Rightarrow> real option" where
  "try_patterns [] text = None"
| "try_patterns (pattern # patterns) text =
     (case findall pattern text of
        [] \<Rightarrow> try_patterns patterns text
      | g # _ \<Rightarrow>
          (case float_of (remove_commas g) of
             None \<Rightarrow> try_patterns patterns text
           | Some price \<Rightarrow>
               if reasonable price then Some price else try_patterns patterns text))"

definition extract_price_from_text :: "string \<Rightarrow> real option" where
  "extract_price_from_text text =
     (if text = [] then None else try_patterns price_patterns (normalize_text text))"

section \<open>The SKU classifier\<close>

text \<open>\<open>str.strip()\<close>.\<close>

definition strip :: "string \<Rightarrow> string" where
  "strip s = rev (dropWhile is_space (rev (dropWhile is_space s)))"

text \<open>
  The four patterns of lines 162 to 165, tried by \<open>re.match\<close> (at the start of the
  text) under \<open>re.IGNORECASE\<close>:
  \<^verbatim>\<open>^\d{6,}$\<close>, \<^verbatim>\<open>^[A-Z0-9]{3,}$\<close>, \<^verbatim>\<open>^\d{3,}-[A-Z0-9]+$\<close>, \<^verbatim>\<open>^[A-Z]{2,}\d+$\<close>.
\<close>

definition sku_patterns :: "unit rx list" where
  "sku_patterns =
     [sq (at_least 6 (one is_digit)) dollar,
      sq (at_least 3 (one is_alnum_ci)) dollar,
      sq (at_least 3 (one is_digit)) (sq (lit ''-'') (sq (plus (one is_alnum_ci)) dollar)),
      sq (at_least 2 (one is_letter_ci)) (sq (plus (one is_digit)) dollar)]"

definition re_match :: "unit rx \<Rightarrow> string \<Rightarrow> bool" where
  "re_match pattern text = (pattern (\<lambda>r. Some ()) text \<noteq> None)"

definition looks_like_sku :: "string \<Rightarrow> bool" where
  "looks_like_sku text =
     (if text = [] \<or> length (strip text) < 3 then False
      else list_ex (\<lambda>pattern. re_match pattern (strip text)) sku_patterns)"

section \<open>The browser engine and the page\<close>

text \<open>
  The browser library is not part of the program. One scrape sees it as the answers of
  its five operations and of the settle delay. An answer is either a value or an
  exception; \<open>exn\<close> stands for the instances of \<open>Exception\<close>, the class every handler of
  the program catches, and carries \<open>str(e)\<close>. (Signals outside that class, such as the
  cancellation of the task or the exit of the interpreter, are not modelled.) An element
  is the answer of its \<open>get_text()\<close>. The browser handle that \<open>uc.start\<close> returns is an
  object without a truth value of its own, so \<open>if browser\<close> holds exactly when the
  launch has returned.
\<close>

datatype exn = Exception (str: string)

type_synonym element = "exn + string"

record world =
  uc_start :: "exn option"
  page_get :: "string \<Rightarrow> exn option"
  sleep :: "exn option"
  select_all :: "string \<Rightarrow> exn + element list"
  browser_stop :: "exn option"

text \<open>The calls that change the state of the session, in the order they are made.\<close>

datatype call = Start | Get string | Sleep nat | Stop

section \<open>The selector search\<close>

definition price_selectors :: "string list" where
  \<open>price_selectors =
     [''[data-testid="price"]'', ''.price'', ''.current-price'', ''.sale-price'',
      ''.product-price'', ''[class*="price"]'', ''[id*="price"]'', ''.price-current'',
      ''.price-now'', ''[data-price]'']\<close>

definition sku_selectors :: "string list" where
  \<open>sku_selectors =
     [''[data-testid="sku"]'', ''.sku'', ''.item-number'', ''.product-sku'',
      ''.model-number'', ''[class*="sku"]'', ''[id*="sku"]'', ''[class*="item"]'',
      ''.internet-number'']\<close>

text \<open>Python's truth value of a float or \<open>None\<close>, and of a string or \<open>None\<close>.\<close>

definition truthy_float :: "real option \<Rightarrow> bool" where
  "truthy_float x = (case x of None \<Rightarrow> False | Some v \<Rightarrow> v \<noteq> 0)"

definition truthy_str :: "string option \<Rightarrow> bool" where
  "truthy_str x = (case x of None \<Rightarrow> False | Some s \<Rightarrow> s \<noteq> [])"

text \<open>
  What the body of the inner loop does with the text of one element: the value it
  assigns before \<open>break\<close>, or \<open>None\<close> when it goes on to the next element
  (lines 71 to 76 for the price, 89 to 92 for the SKU).
\<close>

definition price_of_text :: "string \<Rightarrow> real option" where
  "price_of_text text =
     (if text \<noteq> [] then
        (let extracted_price = extract_price_from_text text in
         if truthy_float extracted_price then extracted_price else None)
      else None)"

definition sku_of_text :: "string \<Rightarrow> string option" where
  "sku_of_text text = (if text \<noteq> [] \<and> looks_like_sku text then Some (strip text) else None)"

text \<open>
  The inner loop over the elements of one selector: \<open>Inl e\<close> when reading an element
  raises \<open>e\<close>, \<open>Inr (Some v)\<close> when the loop breaks having assigned \<open>v\<close>, \<open>Inr None\<close>
  when the elements are exhausted.
\<close>

fun elements_loop :: "(string \<Rightarrow> 'v option) \<Rightarrow> element list \<Rightarrow> exn + 'v option" where
  "elements_loop of_text [] = Inr None"
| "elements_loop of_text (element # elements) =
     (case element of
        Inl e \<Rightarrow> Inl e
      | Inr text \<Rightarrow>
          (case of_text text of
             Some v \<Rightarrow> Inr (Some v)
           | None \<Rightarrow> elements_loop of_text elements))"

text \<open>
  The outer loop over the selectors (lines 66 to 81 and 84 to 97; the two loops differ
  in the body above and in the variable they assign). \<open>var\<close> is the variable \<open>price\<close>
  or \<open>sku\<close>. An exception of \<open>select_all\<close> or of an element is caught by the handler of
  the selector, which goes on to the next selector (\<open>continue\<close>); after the inner loop
  the variable is tested and ends the search when it is true.
\<close>

fun selectors_loop ::
  "world \<Rightarrow> (string \<Rightarrow> 'v option) \<Rightarrow> ('v option \<Rightarrow> bool) \<Rightarrow> string list \<Rightarrow> 'v option \<Rightarrow> 'v option" where
  "selectors_loop w of_text truthy [] var = var"
| "selectors_loop w of_text truthy (selector # selectors) var =
     (case select_all w selector of
        Inl e \<Rightarrow> selectors_loop w of_text truthy selectors var
      | Inr elements \<Rightarrow>
          (case elements_loop of_text elements of
             Inl e \<Rightarrow> selectors_loop w of_text truthy selectors var
           | Inr found \<Rightarrow>
               (let var' = (case found of None \<Rightarrow> var | Some v \<Rightarrow> Some v) in
                if truthy var' then var'
                else selectors_loop w of_text truthy selectors var')))"

definition find_price :: "world \<Rightarrow> real option" where
  "find_price w = selectors_loop w price_of_text truthy_float price_selectors None"

definition find_sku :: "world \<Rightarrow> string option" where
  "find_sku w = selectors_loop w sku_of_text truthy_str sku_selectors None"

section \<open>The session orchestrator\<close>

record scrape_result =
  success :: bool
  price :: "real option"
  sku :: "string option"
  source :: string
  confidence :: real
  error :: "string option"

text \<open>
  The \<open>try\<close> block of lines 44 to 105: whether the variable \<open>browser\<close> has been
  assigned, the calls made, and the exception that left the block or the value it
  returned.
\<close>

definition try_block :: "world \<Rightarrow> string \<Rightarrow> 'm \<Rightarrow> bool \<times> call list \<times> (exn + scrape_result)" where
  "try_block w url material_name =
     (case uc_start w of
        Some e \<Rightarrow> (False, [Start], Inl e)
      | None \<Rightarrow>
          (case page_get w url of
             Some e \<Rightarrow> (True, [Start, Get url], Inl e)
           | None \<Rightarrow>
               (case sleep w of
                  Some e \<Rightarrow> (True, [Start, Get url, Sleep 3], Inl e)
                | None \<Rightarrow>
                    (let p = find_price w; k = find_sku w in
                     (True, [Start, Get url, Sleep 3],
                      Inr \<lparr>success = True, price = p, sku = k, source = url,
                           confidence = (if truthy_float p then 8 / 10 else 3 / 10),
                           error = None\<rparr>)))))"

text \<open>The handler of lines 107 to 116.\<close>

definition except_block :: "string \<Rightarrow> exn + scrape_result \<Rightarrow> scrape_result" where
  "except_block url r =
     (case r of
        Inl e \<Rightarrow> \<lparr>success = False, price = None, sku = None, source = url,
                  confidence = 0, error = Some (str e)\<rparr>
      | Inr result \<Rightarrow> result)"

text \<open>
  The \<open>finally\<close> block of lines 117 to 122: the calls it makes. An exception of
  \<open>browser.stop()\<close> is logged and goes no further.
\<close>

definition finally_block :: "world \<Rightarrow> bool \<Rightarrow> call list" where
  "finally_block w browser =
     (if browser then (case browser_stop w of None \<Rightarrow> [Stop] | Some e \<Rightarrow> [Stop]) else [])"

definition scrape_price_and_sku :: "world \<Rightarrow> string \<Rightarrow> 'm \<Rightarrow> scrape_result \<times> call list" where
  "scrape_price_and_sku w url material_name =
     (case try_block w url material_name of
        (browser, calls, r) \<Rightarrow> (except_block url r, calls @ finally_block w browser))"

section \<open>The selector search as the specification words it\<close>

text \<open>
  What one selector yields: the first accepted value among its elements, in document
  order; nothing when the query fails, or when reading an element fails before a value
  has been accepted. The search yields what the earliest selector that yields a value
  yields.
\<close>

fun first_accepted :: "(string \<Rightarrow> 'v option) \<Rightarrow> element list \<Rightarrow> 'v option" where
  "first_accepted of_text [] = None"
| "first_accepted of_text (Inl e # elements) = None"
| "first_accepted of_text (Inr text # elements) =
     (case of_text text of Some v \<Rightarrow> Some v | None \<Rightarrow> first_accepted of_text elements)"

definition selector_yield :: "world \<Rightarrow> (string \<Rightarrow> 'v option) \<Rightarrow> string \<Rightarrow> 'v option" where
  "selector_yield w of_text selector =
     (case select_all w selector of Inl e \<Rightarrow> None | Inr elements \<Rightarrow> first_accepted of_text elements)"

definition earliest_yield :: "world \<Rightarrow> (string \<Rightarrow> 'v option) \<Rightarrow> string list \<Rightarrow> 'v option" where
  "earliest_yield w of_text selectors =
     (case List.find (\<lambda>selector. selector_yield w of_text selector \<noteq> None) selectors of
        None \<Rightarrow> None
      | Some selector \<Rightarrow> selector_yield w of_text selector)"

section \<open>Texts without noise, and the candidate of a pattern\<close>

text \<open>A text in which the noise pattern matches at no position.\<close>

fun noise_free :: "string \<Rightarrow> bool" where
  "noise_free [] = True"
| "noise_free (c # cs) = (noise Some (c # cs) = None \<and> noise_free cs)"

text \<open>
  The candidate of a pattern in a text is the number its first match parses to. It is
  accepted when it lies in the range. The earliest accepted candidate is that of the
  first pattern of the list whose candidate is accepted.
\<close>

definition first_candidate :: "(string \<Rightarrow> (string \<times> string) option) \<Rightarrow> string \<Rightarrow> real option" where
  "first_candidate pattern text =
     (case findall pattern text of [] \<Rightarrow> None | g # _ \<Rightarrow> float_of (remove_commas g))"

definition accepted_candidate :: "(string \<Rightarrow> (string \<times> string) option) \<Rightarrow> string \<Rightarrow> real option" where
  "accepted_candidate pattern text =
     (case first_candidate pattern text of
        None \<Rightarrow> None
      | Some v \<Rightarrow> if reasonable v then Some v else None)"

definition earliest_accepted :: "(string \<Rightarrow> (string \<times> string) option) list \<Rightarrow> string \<Rightarrow> real option" where
  "earliest_accepted patterns text =
     (case List.find (\<lambda>pattern. accepted_candidate pattern text \<noteq> None) patterns of
        None \<Rightarrow> None
      | Some pattern \<Rightarrow> accepted_candidate pattern text)"

section \<open>The shape of a number\<close>

text \<open>
  The texts the number shape of the patterns can match: digits, then digits and commas,
  then possibly a point, then digits.
\<close>

definition number_shape :: "string \<Rightarrow> bool" where
  "number_shape g =
     (\<exists>d1 cm dt d2. g = d1 @ cm @ dt @ d2 \<and> d1 \<noteq> [] \<and> list_all is_digit d1
        \<and> list_all (\<lambda>c. is_digit c \<or> c = CHR '','') cm
        \<and> (dt = [] \<or> dt = ''.'') \<and> list_all is_digit d2)"

section \<open>Texts without digits\<close>

definition digit_free :: "string \<Rightarrow> bool" where
  "digit_free s = list_all (\<lambda>c. \<not> is_digit c) s"

section \<open>The exception that ends a session early\<close>

text \<open>
  The exception raised while launching, navigating or settling, the three steps of the
  \<open>try\<close> block that no handler of a selector encloses.
\<close>

definition session_error :: "world \<Rightarrow> string \<Rightarrow> exn option" where
  "session_error w url =
     (case uc_start w of
        Some e \<Rightarrow> Some e
      | None \<Rightarrow> (case page_get w url of Some e \<Rightarrow> Some e | None \<Rightarrow> sleep w))"

section \<open>Example pages\<close>

text \<open>
  A product page with a price under \<open>.price\<close> and a SKU under \<open>.sku\<close>; a site that
  cannot be reached; one whose navigation fails with an exception of empty message; and
  a page on which every query raises.
\<close>

definition shop_page :: world where
  "shop_page =
     \<lparr>uc_start = None, page_get = (\<lambda>url. None), sleep = None,
      select_all = (\<lambda>selector.
        if selector = ''.price'' then Inr [Inr ''Sale Price: $45.00 (was $60.00)'']
        else if selector = ''.sku'' then Inr [Inr ''SKU12345'']
        else Inr []),
      browser_stop = None\<rparr>"

definition unreachable_site :: world where
  "unreachable_site =
     \<lparr>uc_start = None, page_get = (\<lambda>url. Some (Exception ''net::ERR_NAME_NOT_RESOLVED'')),
      sleep = None, select_all = (\<lambda>selector. Inr []), browser_stop = None\<rparr>"

definition silent_failure :: world where
  "silent_failure =
     \<lparr>uc_start = None, page_get = (\<lambda>url. Some (Exception [])),
      sleep = None, select_all = (\<lambda>selector. Inr []), browser_stop = None\<rparr>"

definition broken_queries :: world where
  "broken_queries =
     \<lparr>uc_start = None, page_get = (\<lambda>url. None), sleep = None,
      select_all = (\<lambda>selector. Inl (Exception ''DOM access error'')),
      browser_stop = Some (Exception ''connection lost'')\<rparr>"

section \<open>Properties of the extractor, the classifier and the search\<close>

lemma try_patterns_reasonable: "try_patterns ps t = Some v \<Longrightarrow> reasonable v"
  by (induction ps) (auto split: list.splits option.splits if_splits)

lemma extract_price_reasonable: "extract_price_from_text t = Some v \<Longrightarrow> reasonable v"
  by (auto simp: extract_price_from_text_def split: if_splits dest: try_patterns_reasonable)

lemma price_of_text_Some:
  "price_of_text t = Some v \<Longrightarrow> reasonable v \<and> truthy_float (Some v)"
  by (auto simp: price_of_text_def Let_def truthy_float_def split: if_splits option.splits
      dest: extract_price_reasonable)

lemma reasonable_nonzero: "reasonable v \<Longrightarrow> v \<noteq> 0"
  by (auto simp: reasonable_def)

lemma strip_prefix: "\<exists>t. dropWhile is_space s = strip s @ t"
proof -
  have "rev (dropWhile is_space s) =
        takeWhile is_space (rev (dropWhile is_space s)) @ dropWhile is_space (rev (dropWhile is_space s))"
    by simp
  then have "rev (rev (dropWhile is_space s)) =
        rev (takeWhile is_space (rev (dropWhile is_space s)) @ dropWhile is_space (rev (dropWhile is_space s)))"
    by (rule arg_cong)
  then have "dropWhile is_space s =
        strip s @ rev (takeWhile is_space (rev (dropWhile is_space s)))"
    by (simp only: rev_rev_ident rev_append strip_def)
  then show ?thesis by (rule exI)
qed

lemma strip_no_leading: "strip s \<noteq> [] \<Longrightarrow> \<not> is_space (hd (strip s))"
proof -
  assume ne: "strip s \<noteq> []"
  obtain t where t: "dropWhile is_space s = strip s @ t" using strip_prefix by blast
  then have "hd (dropWhile is_space s) = hd (strip s)" using ne by simp
  moreover have "dropWhile is_space s \<noteq> []" using t ne by simp
  ultimately show ?thesis using hd_dropWhile [of is_space s] by metis
qed

lemma strip_no_trailing: "strip s \<noteq> [] \<Longrightarrow> \<not> is_space (last (strip s))"
proof -
  assume ne: "strip s \<noteq> []"
  then have ne': "dropWhile is_space (rev (dropWhile is_space s)) \<noteq> []"
    by (simp add: strip_def)
  have "last (strip s) = hd (dropWhile is_space (rev (dropWhile is_space s)))"
    using ne' by (simp add: strip_def last_rev)
  then show ?thesis using hd_dropWhile [OF ne'] by simp
qed

lemma strip_idem: "strip (strip s) = strip s"
proof (cases "strip s = []")
  case True
  have "strip [] = []" by (simp add: strip_def)
  then show ?thesis by (simp only: True)
next
  case False
  have a: "dropWhile is_space (strip s) = strip s"
    using strip_no_leading [OF False] False by (simp add: dropWhile_eq_self_iff)
  have "\<not> is_space (hd (rev (strip s)))"
    using strip_no_trailing [OF False] False by (simp add: hd_rev)
  then have "dropWhile is_space (rev (strip s)) = rev (strip s)"
    by (simp add: dropWhile_eq_self_iff)
  then show ?thesis using a by (simp add: strip_def [of "strip s"])
qed

lemma looks_like_sku_strip: "looks_like_sku t \<Longrightarrow> looks_like_sku (strip t) \<and> 3 \<le> length (strip t)"
  by (auto simp: looks_like_sku_def strip_idem split: if_splits)

lemma sku_of_text_Some:
  "sku_of_text t = Some s \<Longrightarrow> strip s = s \<and> 3 \<le> length s \<and> looks_like_sku s \<and> truthy_str (Some s)"
  using looks_like_sku_strip [of t]
  by (auto simp: sku_of_text_def strip_idem truthy_str_def split: if_splits)

lemma first_accepted_elements_loop:
  "first_accepted f els = (case elements_loop f els of Inl e \<Rightarrow> None | Inr x \<Rightarrow> x)"
  by (induction f els rule: first_accepted.induct) (auto split: option.splits)

lemma first_accepted_Some: "first_accepted f els = Some v \<Longrightarrow> \<exists>t. f t = Some v"
  by (induction f els rule: first_accepted.induct) (auto split: option.splits)

lemma selector_yield_Some: "selector_yield w f sel = Some v \<Longrightarrow> \<exists>t. f t = Some v"
  by (auto simp: selector_yield_def split: sum.splits dest: first_accepted_Some)

lemma earliest_yield_Some: "earliest_yield w f sels = Some v \<Longrightarrow> \<exists>t. f t = Some v"
  by (auto simp: earliest_yield_def split: option.splits dest: selector_yield_Some)

lemma selectors_loop_earliest:
  assumes acc: "\<And>t v. f t = Some v \<Longrightarrow> tr (Some v)" and none: "\<not> tr None"
  shows "selectors_loop w f tr sels None = earliest_yield w f sels"
proof (induction sels)
  case Nil
  show ?case by (simp add: earliest_yield_def)
next
  case (Cons sel sels)
  show ?case
  proof (cases "selector_yield w f sel")
    case None
    then have "selectors_loop w f tr (sel # sels) None = selectors_loop w f tr sels None"
      using none
      by (auto simp: selector_yield_def first_accepted_elements_loop split: sum.splits option.splits)
    moreover have "earliest_yield w f (sel # sels) = earliest_yield w f sels"
      using None by (simp add: earliest_yield_def)
    ultimately show ?thesis using Cons.IH by simp
  next
    case (Some v)
    from selector_yield_Some [OF Some] obtain t where "f t = Some v" ..
    then have "tr (Some v)" by (rule acc)
    then have "selectors_loop w f tr (sel # sels) None = Some v"
      using Some
      by (auto simp: selector_yield_def first_accepted_elements_loop split: sum.splits option.splits)
    moreover have "earliest_yield w f (sel # sels) = Some v"
      using Some by (simp add: earliest_yield_def)
    ultimately show ?thesis by simp
  qed
qed

lemma find_price_earliest: "find_price w = earliest_yield w price_of_text price_selectors"
  unfolding find_price_def
  by (rule selectors_loop_earliest) (auto simp: truthy_float_def dest: price_of_text_Some)

lemma find_sku_earliest: "find_sku w = earliest_yield w sku_of_text sku_selectors"
  unfolding find_sku_def
  by (rule selectors_loop_earliest) (auto simp: truthy_str_def dest: sku_of_text_Some)

lemma find_price_truthy: "truthy_float (find_price w) = (find_price w \<noteq> None)"
proof (cases "find_price w")
  case None
  then show ?thesis by (simp add: truthy_float_def)
next
  case (Some v)
  then have "earliest_yield w price_of_text price_selectors = Some v"
    by (simp add: find_price_earliest)
  from earliest_yield_Some [OF this] obtain t where "price_of_text t = Some v" ..
  then have "truthy_float (Some v)" by (simp add: price_of_text_Some)
  then show ?thesis using Some by simp
qed

lemma find_price_reasonable: "find_price w = Some v \<Longrightarrow> reasonable v"
proof -
  assume "find_price w = Some v"
  then have "earliest_yield w price_of_text price_selectors = Some v"
    by (simp add: find_price_earliest)
  from earliest_yield_Some [OF this] obtain t where "price_of_text t = Some v" ..
  then show ?thesis by (simp add: price_of_text_Some)
qed

lemma find_sku_shape:
  "find_sku w = Some s \<Longrightarrow> strip s = s \<and> 3 \<le> length s \<and> looks_like_sku s"
proof -
  assume "find_sku w = Some s"
  then have "earliest_yield w sku_of_text sku_selectors = Some s"
    by (simp add: find_sku_earliest)
  from earliest_yield_Some [OF this] obtain t where "sku_of_text t = Some s" ..
  then show ?thesis using sku_of_text_Some by blast
qed

lemma scrape_result_cases:
  "fst (scrape_price_and_sku w url m) =
     (case uc_start w of
        Some e \<Rightarrow> \<lparr>success = False, price = None, sku = None, source = url,
                   confidence = 0, error = Some (str e)\<rparr>
      | None \<Rightarrow>
          (case page_get w url of
             Some e \<Rightarrow> \<lparr>success = False, price = None, sku = None, source = url,
                        confidence = 0, error = Some (str e)\<rparr>
           | None \<Rightarrow>
               (case sleep w of
                  Some e \<Rightarrow> \<lparr>success = False, price = None, sku = None, source = url,
                             confidence = 0, error = Some (str e)\<rparr>
                | None \<Rightarrow> \<lparr>success = True, price = find_price w, sku = find_sku w, source = url,
                     confidence = (if find_price w = None then 3 / 10 else 8 / 10),
                     error = None\<rparr>)))"
proof (cases "uc_start w")
  case None
  note launched = this
  show ?thesis
  proof (cases "page_get w url")
    case None
    note navigated = this
    show ?thesis
    proof (cases "sleep w")
      case None
      then show ?thesis
        using launched navigated
        by (simp add: scrape_price_and_sku_def try_block_def except_block_def Let_def
            find_price_truthy)
    next
      case (Some e)
      then show ?thesis
        using launched navigated
        by (simp add: scrape_price_and_sku_def try_block_def except_block_def)
    qed
  next
    case (Some e)
    then show ?thesis
      using launched by (simp add: scrape_price_and_sku_def try_block_def except_block_def)
  qed
next
  case (Some e)
  then show ?thesis
    by (simp add: scrape_price_and_sku_def try_block_def except_block_def)
qed

lemma scrape_calls:
  "snd (scrape_price_and_sku w url m) =
     (case uc_start w of
        Some e \<Rightarrow> [Start]
      | None \<Rightarrow>
          (case page_get w url of
             Some e \<Rightarrow> [Start, Get url, Stop]
           | None \<Rightarrow> [Start, Get url, Sleep 3, Stop]))"
  by (simp add: scrape_price_and_sku_def try_block_def finally_block_def Let_def
      split: option.splits)
lemma selector_yield_stop:
  "selector_yield (w\<lparr>browser_stop := x\<rparr>) f sel = selector_yield w f sel"
  by (simp add: selector_yield_def)

lemma earliest_yield_stop:
  "earliest_yield (w\<lparr>browser_stop := x\<rparr>) f sels = earliest_yield w f sels"
  by (simp add: earliest_yield_def selector_yield_stop split: option.splits)

lemma shop_page_scrape:
  "fst (scrape_price_and_sku shop_page ''http://example.com'' ()) =
     \<lparr>success = True, price = Some 45, sku = Some ''SKU12345'',
      source = ''http://example.com'', confidence = 8 / 10, error = None\<rparr>"
  by code_simp

lemma unreachable_site_scrape:
  "scrape_price_and_sku unreachable_site ''http://nowhere.invalid'' () =
     (\<lparr>success = False, price = None, sku = None, source = ''http://nowhere.invalid'',
       confidence = 0, error = Some ''net::ERR_NAME_NOT_RESOLVED''\<rparr>,
      [Start, Get ''http://nowhere.invalid'', Stop])"
  by code_simp

section \<open>The claims about the orchestrator and the search\<close>

text \<open>
  C1. Every result of the orchestrator is either a failure with no price, no SKU and
  confidence 0, or a success whose confidence is 0.8 when a price is present and 0.3
  when it is absent, whatever the SKU.
\<close>

theorem scrape_result_invariant:
  "(if success (fst (scrape_price_and_sku w url m))
    then confidence (fst (scrape_price_and_sku w url m)) =
           (if price (fst (scrape_price_and_sku w url m)) = None then 3 / 10 else 8 / 10)
    else price (fst (scrape_price_and_sku w url m)) = None
       \<and> sku (fst (scrape_price_and_sku w url m)) = None
       \<and> confidence (fst (scrape_price_and_sku w url m)) = 0)"
  by (simp add: scrape_result_cases split: option.splits)

text \<open>
  C3, as the code has it. An exception raised by the launch, the navigation or the settle
  delay is caught and gives the failure result whose \<open>error\<close> is \<open>str(e)\<close>, with no
  price, no SKU and confidence 0. When none of the three raises the result is a success
  with no \<open>error\<close>: the exceptions of the extraction are caught at their selector.
\<close>

theorem session_exception_gives_failure:
  "(case session_error w url of
      Some e \<Rightarrow>
        fst (scrape_price_and_sku w url m) =
          \<lparr>success = False, price = None, sku = None, source = url,
           confidence = 0, error = Some (str e)\<rparr>
    | None \<Rightarrow>
        success (fst (scrape_price_and_sku w url m))
      \<and> error (fst (scrape_price_and_sku w url m)) = None)"
  by (simp add: scrape_result_cases session_error_def split: option.splits)

text \<open>
  C3 as stated fails twice. On a page where every query raises, the exceptions of the
  extracting phase leave a successful result; and a navigation that fails with an
  exception of empty message gives a failure whose \<open>error\<close> is the empty string.
\<close>

theorem extraction_exception_counterexample:
  "select_all broken_queries ''.price'' = Inl (Exception ''DOM access error'')
   \<and> fst (scrape_price_and_sku broken_queries ''http://example.com'' ()) =
       \<lparr>success = True, price = None, sku = None, source = ''http://example.com'',
        confidence = 3 / 10, error = None\<rparr>
   \<and> page_get silent_failure ''http://example.com'' = Some (Exception [])
   \<and> error (fst (scrape_price_and_sku silent_failure ''http://example.com'' ())) = Some []"
  by code_simp

text \<open>
  C4. The session is stopped exactly once when the launch has returned a browser (and
  not at all when there is none), and whatever \<open>browser.stop()\<close> answers, an exception
  included, the result is the one computed before.
\<close>

theorem session_released_once:
  "count_list (snd (scrape_price_and_sku w url m)) Stop = (if uc_start w = None then 1 else 0)
   \<and> fst (scrape_price_and_sku (w\<lparr>browser_stop := x\<rparr>) url m) = fst (scrape_price_and_sku w url m)"
proof -
  have "find_price (w\<lparr>browser_stop := x\<rparr>) = find_price w"
    by (simp add: find_price_earliest earliest_yield_stop)
  moreover have "find_sku (w\<lparr>browser_stop := x\<rparr>) = find_sku w"
    by (simp add: find_sku_earliest earliest_yield_stop)
  ultimately show ?thesis
    by (simp add: scrape_result_cases scrape_calls split: option.splits)
qed

text \<open>
  C5. For the price and for the SKU, the search returns what the earliest selector of
  the list that yields an accepted value yields, its elements being tested in document
  order; a selector whose query or whose element fails yields nothing and the search
  goes on with the next one.
\<close>

theorem selector_search_earliest:
  "find_price w = earliest_yield w price_of_text price_selectors
   \<and> find_sku w = earliest_yield w sku_of_text sku_selectors"
  by (simp add: find_price_earliest find_sku_earliest)

text \<open>
  C9. The result and the calls of a scrape do not depend on \<open>material_name\<close>: two
  invocations that differ only there, in value or even in type, agree.
\<close>

theorem material_name_ignored:
  "scrape_price_and_sku w url material_name = scrape_price_and_sku w url other_name"
  by (simp add: scrape_price_and_sku_def try_block_def)

text \<open>
  C10. In a successful result a price that is present lies in the range from 0.01 to
  10000, and a SKU that is present is trimmed (it begins and ends with a character that
  is not white space), is at least 3 characters long and is accepted by the classifier.
\<close>

theorem successful_result_wellformed:
  assumes "success (fst (scrape_price_and_sku w url m))"
  shows "(\<forall>p. price (fst (scrape_price_and_sku w url m)) = Some p \<longrightarrow> 1 / 100 \<le> p \<and> p \<le> 10000)
       \<and> (\<forall>s. sku (fst (scrape_price_and_sku w url m)) = Some s \<longrightarrow>
             strip s = s \<and> \<not> is_space (hd s) \<and> \<not> is_space (last s)
           \<and> 3 \<le> length s \<and> looks_like_sku s)"
proof -
  have r: "price (fst (scrape_price_and_sku w url m)) = find_price w"
          "sku (fst (scrape_price_and_sku w url m)) = find_sku w"
    using assms by (auto simp: scrape_result_cases split: option.splits)
  have "1 / 100 \<le> p \<and> p \<le> 10000" if "find_price w = Some p" for p
    using find_price_reasonable [OF that] by (simp add: reasonable_def)
  moreover have "strip s = s \<and> \<not> is_space (hd s) \<and> \<not> is_space (last s)
           \<and> 3 \<le> length s \<and> looks_like_sku s" if "find_sku w = Some s" for s
  proof -
    from find_sku_shape [OF that] have a: "strip s = s" "3 \<le> length s" "looks_like_sku s"
      by simp_all
    then have "strip s \<noteq> []" by auto
    from strip_no_leading [OF this] strip_no_trailing [OF this] a show ?thesis by simp
  qed
  ultimately show ?thesis by (simp add: r)
qed

text \<open>The product page of the example is an instance.\<close>

theorem successful_result_wellformed_witness:
  "success (fst (scrape_price_and_sku shop_page ''http://example.com'' ()))
   \<and> price (fst (scrape_price_and_sku shop_page ''http://example.com'' ())) = Some 45
   \<and> 1 / 100 \<le> (45 :: real) \<and> (45 :: real) \<le> 10000
   \<and> sku (fst (scrape_price_and_sku shop_page ''http://example.com'' ())) = Some ''SKU12345''
   \<and> strip ''SKU12345'' = ''SKU12345''
   \<and> \<not> is_space (hd ''SKU12345'') \<and> \<not> is_space (last ''SKU12345'')
   \<and> 3 \<le> length ''SKU12345'' \<and> looks_like_sku ''SKU12345''"
  using successful_result_wellformed [of shop_page "''http://example.com''" "()"]
  by (simp add: shop_page_scrape)

section \<open>Properties of the normalizer and of the pattern loop\<close>

lemma one_Nil [simp]: "one P k [] = None"
  by (simp add: one_def)

lemma one_Cons [simp]: "one P k (c # s) = (if P c then k s else None)"
  by (simp add: one_def)

lemma orelse_simps [simp]: "orelse None b = b" "orelse (Some v) b = Some v"
  by (simp_all add: orelse_def)

lemma lit_ci_Some:
  "lit_ci tk Some s = Some r \<Longrightarrow> r = drop (length tk) s \<and> length tk \<le> length s"
  by (induction tk arbitrary: s) (auto split: list.splits if_splits simp: one_def)

lemma alt_Some: "alt a b k s = Some v \<Longrightarrow> a k s = Some v \<or> b k s = Some v"
  by (simp add: alt_def orelse_def split: option.splits)

lemma lit_ci_consumes:
  assumes "tk \<noteq> []" and "lit_ci tk Some s = Some r"
  shows "length r < length s \<and> set r \<subseteq> set s"
proof -
  from lit_ci_Some [OF assms(2)] have r: "r = drop (length tk) s" "length tk \<le> length s"
    by simp_all
  then have "length r < length s" using assms(1) by (cases tk) auto
  moreover have "set r \<subseteq> set s" using r by (simp add: set_drop_subset)
  ultimately show ?thesis by simp
qed

lemma noise_Some:
  assumes "noise Some s = Some r"
  shows "length r < length s \<and> set r \<subseteq> set s"
proof -
  from assms have
    "lit_ci ''was'' Some s = Some r \<or> lit_ci ''orig'' Some s = Some r
     \<or> lit_ci ''originally'' Some s = Some r \<or> lit_ci ''save'' Some s = Some r
     \<or> lit_ci ''you save'' Some s = Some r \<or> lit_ci ''msrp'' Some s = Some r"
    unfolding noise_def by (blast dest: alt_Some)
  then show ?thesis
    by (elim disjE) (erule lit_ci_consumes [rotated], simp)+
qed

lemma re_sub_del_Nil [simp]: "re_sub_del m [] = []"
  by (simp add: re_sub_del.simps split: option.splits)

lemma normalize_step_match:
  "noise Some s = Some r \<Longrightarrow> re_sub_del (noise Some) s = re_sub_del (noise Some) r"
  using noise_Some [of s r] by (subst re_sub_del.simps) simp

lemma normalize_step_keep:
  "noise Some (c # cs) = None \<Longrightarrow> re_sub_del (noise Some) (c # cs) = c # re_sub_del (noise Some) cs"
  by (subst re_sub_del.simps) simp

lemma normalize_length: "length (re_sub_del (noise Some) s) \<le> length s"
proof (induction s rule: length_induct)
  case (1 s)
  show ?case
  proof (cases s)
    case Nil
    then show ?thesis by simp
  next
    case (Cons c cs)
    show ?thesis
    proof (cases "noise Some s")
      case None
      then show ?thesis using Cons 1 by (simp add: normalize_step_keep)
    next
      case (Some r)
      then have "length r < length s" using noise_Some by blast
      then show ?thesis using 1 Some by (simp add: normalize_step_match) (meson le_trans less_imp_le)
    qed
  qed
qed

lemma normalize_noise_free: "noise_free s \<Longrightarrow> re_sub_del (noise Some) s = s"
  by (induction s) (simp_all add: normalize_step_keep)

lemma normalize_shrinks: "\<not> noise_free s \<Longrightarrow> length (re_sub_del (noise Some) s) < length s"
proof (induction s)
  case Nil
  then show ?case by simp
next
  case (Cons c cs)
  show ?case
  proof (cases "noise Some (c # cs)")
    case None
    then have "\<not> noise_free cs" using Cons.prems by simp
    then show ?thesis using Cons.IH None by (simp add: normalize_step_keep)
  next
    case (Some r)
    then have "length r < length (c # cs)" using noise_Some by blast
    moreover have "length (re_sub_del (noise Some) r) \<le> length r" by (rule normalize_length)
    ultimately show ?thesis using Some by (simp add: normalize_step_match)
  qed
qed

lemma try_patterns_earliest: "try_patterns patterns text = earliest_accepted patterns text"
proof (induction patterns)
  case Nil
  show ?case by (simp add: earliest_accepted_def)
next
  case (Cons p ps)
  show ?case
  proof (cases "accepted_candidate p text")
    case None
    then have "try_patterns (p # ps) text = try_patterns ps text"
      by (auto simp: accepted_candidate_def first_candidate_def
          split: list.splits option.splits if_splits)
    moreover have "earliest_accepted (p # ps) text = earliest_accepted ps text"
      using None by (simp add: earliest_accepted_def)
    ultimately show ?thesis using Cons.IH by simp
  next
    case (Some v)
    then have "try_patterns (p # ps) text = Some v"
      by (auto simp: accepted_candidate_def first_candidate_def
          split: list.splits option.splits if_splits)
    moreover have "earliest_accepted (p # ps) text = Some v"
      using Some by (simp add: earliest_accepted_def)
    ultimately show ?thesis by simp
  qed
qed

lemma later_match_not_consulted:
  "findall dollar_pattern (normalize_text ''$0 $5'') = [''0'', ''5'']
   \<and> extract_price_from_text ''$0 $5'' = None"
  by code_simp

section \<open>The claims about the normalizer and the pattern loop\<close>

text \<open>
  C6. Taken alone, five of the six noise tokens are removed whole, but \<open>originally\<close>
  is not: the alternative \<open>orig\<close> stands before it in the pattern and matches first, so
  that \<open>inally\<close> is left.
\<close>

theorem normalize_originally:
  "normalize_text ''originally'' = ''inally''
   \<and> normalize_text ''was'' = [] \<and> normalize_text ''orig'' = [] \<and> normalize_text ''save'' = []
   \<and> normalize_text ''you save'' = [] \<and> normalize_text ''msrp'' = []"
  by code_simp

text \<open>
  C7, as the code has it. Normalizing a second time changes nothing exactly when the
  text normalized once holds no noise token; the removal is one pass from left to right,
  and a token that the removal itself puts together is left for a second pass.
\<close>

theorem normalize_fixed_iff_noise_free:
  "(normalize_text (normalize_text text) = normalize_text text) = noise_free (normalize_text text)"
proof (cases "noise_free (normalize_text text)")
  case True
  then show ?thesis by (simp add: normalize_text_def normalize_noise_free)
next
  case False
  then have "length (normalize_text (normalize_text text)) < length (normalize_text text)"
    using normalize_shrinks by (simp add: normalize_text_def)
  then show ?thesis using False by auto
qed

text \<open>
  C7 as stated fails: from \<open>wwasas\<close> the first pass removes the inner \<open>was\<close> and
  leaves \<open>was\<close>, which the second pass removes.
\<close>

theorem normalize_not_idempotent:
  "normalize_text (normalize_text ''wwasas'') \<noteq> normalize_text ''wwasas''"
  by code_simp

text \<open>
  C2, as the code has it. Of each pattern only the first match is considered. The price
  is the candidate of the earliest pattern, in the order dollar-prefixed, USD-suffixed,
  bare, whose candidate lies in the range from 0.01 to 10000: a pattern whose first
  match is out of range is passed over, its later matches are not consulted, and the
  loop goes on to the next pattern. The price is absent when no pattern has an accepted
  candidate.
\<close>

theorem extract_price_earliest_accepted:
  "extract_price_from_text text =
     (if text = [] then None else earliest_accepted price_patterns (normalize_text text))"
  by (simp add: extract_price_from_text_def try_patterns_earliest)

text \<open>
  C2 as stated fails: in \<open>$0 5 USD\<close> the dollar pattern is the first with a match, its
  first match \<open>0\<close> is out of range, and the price is not absent but 5, found by the
  USD pattern.
\<close>

theorem out_of_range_falls_through:
  "findall dollar_pattern (normalize_text ''$0 5 USD'') = [''0'']
   \<and> float_of (remove_commas ''0'') = Some 0 \<and> \<not> reasonable 0
   \<and> extract_price_from_text ''$0 5 USD'' = Some 5"
  by code_simp

section \<open>The three patterns on a text whose only digits are 15000\<close>

text \<open>
  The patterns are evaluated on \<open>15000\<close> followed by any text without digits: the
  number shape takes all five digits at once, and a shorter match is only tried when
  what follows the shape fails.
\<close>

lemma digit_simps [simp]:
  "is_digit CHR ''0''" "is_digit CHR ''1''" "is_digit CHR ''5''"
  "\<not> is_digit CHR ''$''" "\<not> is_digit CHR ''.''" "\<not> is_digit CHR '',''" "\<not> is_digit CHR ''U''"
  by (simp_all add: is_digit_def digit_chars_def)

lemma upto_fail: "(\<And>k'. a k' s = None) \<Longrightarrow> upto n a k s = k s"
  by (cases n) simp_all

lemma star_fail: "(\<And>k'. a k' s = None) \<Longrightarrow> star a k s = k s"
  by (simp add: star_def upto_fail)

lemma sq_apply: "sq a b k = a (b k)"
  by (rule ext) (simp add: sq_def)

lemma times_0: "times 0 a k = k"
  by (rule ext) simp

lemma star_comma_digit:
  "is_digit c \<Longrightarrow> star (sq (lit '','') (times 3 (one is_digit))) k (c # s) = k (c # s)"
  by (rule star_fail) (auto simp: sq_def)

lemma star_comma_Nil: "star (sq (lit '','') (times 3 (one is_digit))) k [] = k []"
  by (rule star_fail) (simp add: sq_def)

lemma star_comma_nondigit:
  "\<forall>c\<in>set s. \<not> is_digit c \<Longrightarrow> star (sq (lit '','') (times 3 (one is_digit))) k s = k s"
  by (rule star_fail) (cases s; cases "tl s"; auto simp: sq_def eval_nat_numeral)

lemma number_unfold:
  "number k s =
     one is_digit (upto (Suc (Suc 0)) (one is_digit)
       (star (sq (lit '','') (times 3 (one is_digit)))
         (upto (Suc 0) (lit ''.'') (upto (Suc (Suc 0)) (one is_digit) k)))) s"
  by (simp add: number_def rep_def sq_apply opt_def times_0 eval_nat_numeral del: upto.simps)

lemma bare_15000: "bare_pattern (''15000'' @ b) = Some (''15000'', b)"
  by (simp add: bare_pattern_def capture_def number_unfold star_comma_digit Suc_diff_le)

lemma dollar_15000: "dollar_pattern (CHR ''$'' # ''15000'' @ b) = Some (''15000'', b)"
  by (simp add: dollar_pattern_def capture_def number_unfold star_comma_digit Suc_diff_le)

lemma orelse_None_right [simp]: "orelse a None = a"
  by (simp add: orelse_def split: option.splits)

lemma one_natural: "one P (\<lambda>r. map_option f (k r)) s = map_option f (one P k s)"
  by (simp add: one_def split: list.splits)

lemma lit_natural: "lit l (\<lambda>r. map_option f (k r)) s = map_option f (lit l k s)"
proof (induction l arbitrary: s)
  case Nil
  show ?case by simp
next
  case (Cons c cs)
  have "lit cs (\<lambda>r. map_option f (k r)) = (\<lambda>r. map_option f (lit cs k r))"
    by (rule ext) (rule Cons.IH)
  then show ?case by (simp add: one_def split: list.splits)
qed

lemma orelse_map: "orelse (map_option f a) (map_option f b) = map_option f (orelse a b)"
  by (simp add: orelse_def split: option.splits)

lemma upto_one_natural:
  "upto n (one P) (\<lambda>r. map_option f (k r)) s = map_option f (upto n (one P) k s)"
proof (induction n arbitrary: s)
  case 0
  show ?case by simp
next
  case (Suc n)
  have "upto n (one P) (\<lambda>r. map_option f (k r)) = (\<lambda>r. map_option f (upto n (one P) k r))"
    by (rule ext) (rule Suc.IH)
  then show ?case by (simp add: one_natural orelse_map del: one_Cons)
qed

lemma usd_suffix_natural:
  "sq (star (one is_space)) (lit ''USD'') (\<lambda>r. Some (g, r)) s =
     map_option (Pair g) (sq (star (one is_space)) (lit ''USD'') Some s)"
proof -
  have a: "lit ''USD'' (\<lambda>r. Some (g, r)) = (\<lambda>r. map_option (Pair g) (lit ''USD'' Some r))"
    using lit_natural [of "''USD''" "Pair g" Some] by (intro ext) simp
  show ?thesis
    unfolding sq_def star_def a by (rule upto_one_natural)
qed

lemma digit_not_space: "is_digit c \<Longrightarrow> \<not> is_space c \<and> c \<noteq> CHR ''U''"
  by (auto simp: is_digit_def digit_chars_def is_space_def spaces_def)

lemma usd_suffix_digit:
  "is_digit c \<Longrightarrow> sq (star (one is_space)) (lit ''USD'') k (c # s) = None"
  by (simp add: sq_def star_def digit_not_space)

lemma one_digit_nondigit: "\<forall>c\<in>set s. \<not> is_digit c \<Longrightarrow> one is_digit k s = None"
  by (cases s) simp_all

lemmas usd_eval = usd_pattern_def capture_def number_unfold star_comma_digit star_comma_nondigit
  usd_suffix_natural usd_suffix_digit one_digit_nondigit Suc_diff_le

lemma usd_15000:
  "\<forall>c\<in>set b. \<not> is_digit c \<Longrightarrow>
   usd_pattern (''15000'' @ b) =
     map_option (Pair ''15000'') (sq (star (one is_space)) (lit ''USD'') Some b)"
  by (simp add: usd_eval)

lemma usd_5000:
  "\<forall>c\<in>set b. \<not> is_digit c \<Longrightarrow> sq (star (one is_space)) (lit ''USD'') Some b = None \<Longrightarrow>
   usd_pattern (''5000'' @ b) = None"
  by (simp add: usd_eval)

lemma usd_000:
  "\<forall>c\<in>set b. \<not> is_digit c \<Longrightarrow> sq (star (one is_space)) (lit ''USD'') Some b = None \<Longrightarrow>
   usd_pattern (''000'' @ b) = Some (g, r) \<Longrightarrow> g = ''000.''"
  by (cases b) (auto simp: usd_eval split: if_splits)

lemma usd_00:
  "\<forall>c\<in>set b. \<not> is_digit c \<Longrightarrow> sq (star (one is_space)) (lit ''USD'') Some b = None \<Longrightarrow>
   usd_pattern (''00'' @ b) = Some (g, r) \<Longrightarrow> g = ''00.''"
  by (cases b) (auto simp: usd_eval split: if_splits)

lemma usd_0:
  "\<forall>c\<in>set b. \<not> is_digit c \<Longrightarrow> sq (star (one is_space)) (lit ''USD'') Some b = None \<Longrightarrow>
   usd_pattern (''0'' @ b) = Some (g, r) \<Longrightarrow> g = ''0.''"
  by (cases b) (auto simp: usd_eval split: if_splits)

lemma findall_Some: "m s = Some (g, r) \<Longrightarrow> \<exists>rest. findall m s = g # rest"
  by (subst findall.simps) simp

lemma findall_None: "m (c # s) = None \<Longrightarrow> findall m (c # s) = findall m s"
  by (subst findall.simps) simp

lemma findall_Nil: "m [] = None \<Longrightarrow> findall m [] = []"
  by (subst findall.simps) simp

lemma findall_skip:
  assumes "\<And>c s. c \<in> set a \<Longrightarrow> m (c # s) = None"
  shows "findall m (a @ t) = findall m t"
  using assms by (induction a) (simp_all add: findall_None)

lemma number_Nil: "number k [] = None"
  by (simp add: number_unfold)

lemma number_nondigit: "\<not> is_digit c \<Longrightarrow> number k (c # s) = None"
  by (simp add: number_unfold)

lemma bare_nondigit: "\<not> is_digit c \<Longrightarrow> bare_pattern (c # s) = None"
  by (simp add: bare_pattern_def capture_def number_nondigit)

lemma usd_nondigit: "\<not> is_digit c \<Longrightarrow> usd_pattern (c # s) = None"
  by (simp add: usd_pattern_def capture_def number_nondigit)

lemma usd_Nil: "usd_pattern [] = None"
  by (simp add: usd_pattern_def capture_def number_Nil)

lemma dollar_Nil: "dollar_pattern [] = None"
  by (simp add: dollar_pattern_def)

lemma dollar_other: "c \<noteq> CHR ''$'' \<Longrightarrow> dollar_pattern (c # s) = None"
  by (simp add: dollar_pattern_def)

lemma dollar_last: "dollar_pattern [CHR ''$''] = None"
  by (simp add: dollar_pattern_def capture_def number_Nil)

lemma dollar_nondigit: "\<not> is_digit c \<Longrightarrow> dollar_pattern (CHR ''$'' # c # s) = None"
  by (simp add: dollar_pattern_def capture_def number_nondigit)

lemma bare_head:
  assumes "\<forall>c\<in>set a. \<not> is_digit c"
  shows "\<exists>rest. findall bare_pattern (a @ ''15000'' @ b) = ''15000'' # rest"
proof -
  have "findall bare_pattern (a @ ''15000'' @ b) = findall bare_pattern (''15000'' @ b)"
    using assms by (intro findall_skip) (simp add: bare_nondigit)
  then show ?thesis
    using findall_Some [of bare_pattern "''15000'' @ b" "''15000''" b] bare_15000 [of b] by simp
qed

lemma usd_tail:
  assumes "\<forall>c\<in>set b. \<not> is_digit c"
  shows "findall usd_pattern b = []"
proof -
  have "findall usd_pattern (b @ []) = findall usd_pattern []"
    using assms by (intro findall_skip) (simp add: usd_nondigit)
  then show ?thesis by (simp add: findall_Nil usd_Nil)
qed

lemma usd_head:
  assumes nd: "\<forall>c\<in>set b. \<not> is_digit c"
    and f: "findall usd_pattern (''15000'' @ b) = g # rest"
  shows "g \<in> {''15000'', ''000.'', ''00.'', ''0.''}"
proof (cases "sq (star (one is_space)) (lit ''USD'') Some b")
  case (Some r)
  then have "usd_pattern (''15000'' @ b) = Some (''15000'', r)"
    using usd_15000 [OF nd] by simp
  from findall_Some [of usd_pattern "''15000'' @ b" "''15000''" r] this f show ?thesis by auto
next
  case None
  have a: "usd_pattern (''15000'' @ b) = None" using None usd_15000 [OF nd] by simp
  have b: "usd_pattern (''5000'' @ b) = None" by (rule usd_5000 [OF nd None])
  have f1: "findall usd_pattern (''000'' @ b) = g # rest"
    using f a b by (simp add: findall_None)
  show ?thesis
  proof (cases "usd_pattern (''000'' @ b)")
    case (Some v)
    obtain g' r' where v: "v = (g', r')" by (cases v)
    from usd_000 [OF nd None] Some v have "g' = ''000.''" by simp
    moreover from findall_Some [of usd_pattern "''000'' @ b" g' r'] Some v f1 have "g = g'" by auto
    ultimately show ?thesis by simp
  next
    case None
    note n0 = this
    have f2: "findall usd_pattern (''00'' @ b) = g # rest"
      using f1 n0 by (simp add: findall_None)
    show ?thesis
    proof (cases "usd_pattern (''00'' @ b)")
      case (Some v)
      obtain g' r' where v: "v = (g', r')" by (cases v)
      from usd_00 [OF nd \<open>sq (star (one is_space)) (lit ''USD'') Some b = None\<close>] Some v
      have "g' = ''00.''" by simp
      moreover from findall_Some [of usd_pattern "''00'' @ b" g' r'] Some v f2 have "g = g'" by auto
      ultimately show ?thesis by simp
    next
      case None
      note n1 = this
      have f3: "findall usd_pattern (''0'' @ b) = g # rest"
        using f2 n1 by (simp add: findall_None)
      show ?thesis
      proof (cases "usd_pattern (''0'' @ b)")
        case (Some v)
        obtain g' r' where v: "v = (g', r')" by (cases v)
        from usd_0 [OF nd \<open>sq (star (one is_space)) (lit ''USD'') Some b = None\<close>] Some v
        have "g' = ''0.''" by simp
        moreover from findall_Some [of usd_pattern "''0'' @ b" g' r'] Some v f3 have "g = g'" by auto
        ultimately show ?thesis by simp
      next
        case None
        then have "findall usd_pattern b = g # rest" using f3 by (simp add: findall_None)
        then show ?thesis using usd_tail [OF nd] by simp
      qed
    qed
  qed
qed

lemma usd_head_prefix:
  assumes "\<forall>c\<in>set a. \<not> is_digit c" and "\<forall>c\<in>set b. \<not> is_digit c"
    and "findall usd_pattern (a @ ''15000'' @ b) = g # rest"
  shows "g \<in> {''15000'', ''000.'', ''00.'', ''0.''}"
proof -
  have "findall usd_pattern (a @ ''15000'' @ b) = findall usd_pattern (''15000'' @ b)"
    using assms(1) by (intro findall_skip) (simp add: usd_nondigit)
  then show ?thesis using usd_head [OF assms(2)] assms(3) by simp
qed

lemma dollar_tail: "\<forall>c\<in>set b. \<not> is_digit c \<Longrightarrow> findall dollar_pattern b = []"
proof (induction b)
  case Nil
  show ?case by (simp add: findall_Nil dollar_Nil)
next
  case (Cons c b)
  have "dollar_pattern (c # b) = None"
  proof (cases "c = CHR ''$''")
    case False
    then show ?thesis by (rule dollar_other)
  next
    case True
    then show ?thesis using Cons.prems by (cases b) (simp_all add: dollar_last dollar_nondigit)
  qed
  then show ?case using Cons by (simp add: findall_None)
qed

lemma dollar_digits: "\<forall>c\<in>set b. \<not> is_digit c \<Longrightarrow> findall dollar_pattern (''15000'' @ b) = []"
  by (simp add: findall_None dollar_other dollar_tail)

lemma dollar_head:
  assumes "\<forall>c\<in>set a. \<not> is_digit c" and "\<forall>c\<in>set b. \<not> is_digit c"
    and "findall dollar_pattern (a @ ''15000'' @ b) = g # rest"
  shows "g = ''15000''"
  using assms
proof (induction a)
  case Nil
  then show ?case using dollar_digits [of b] by simp
next
  case (Cons c a)
  show ?case
  proof (cases "dollar_pattern (c # a @ ''15000'' @ b)")
    case None
    then have "findall dollar_pattern (a @ ''15000'' @ b) = g # rest"
      using Cons.prems(3) by (simp add: findall_None)
    then show ?thesis using Cons by simp
  next
    case (Some v)
    have c: "c = CHR ''$''" using Some dollar_other [of c] by (cases "c = CHR ''$''") auto
    have "a = []"
    proof (cases a)
      case Nil
      then show ?thesis .
    next
      case (Cons c' a')
      then have "\<not> is_digit c'" using Cons.prems(1) by simp
      then show ?thesis using Some c Cons by (simp add: dollar_nondigit)
    qed
    then have "dollar_pattern (c # a @ ''15000'' @ b) = Some (''15000'', b)"
      using c dollar_15000 [of b] by simp
    from findall_Some [of dollar_pattern "c # a @ ''15000'' @ b" "''15000''" b] this Cons.prems(3)
    show ?thesis by auto
  qed
qed

text \<open>
  The noise pattern holds no digit, so a removal never reaches across one: the
  normalizer treats the texts before and behind a digit apart.
\<close>

lemma lower_digits: "list_all (\<lambda>d. lower d = d) digit_chars"
  by code_simp

lemma lower_digit: "is_digit d \<Longrightarrow> lower d = d"
  using lower_digits unfolding is_digit_def list_all_iff by blast

lemma lit_ci_digit:
  assumes "is_digit d" and "\<forall>c\<in>set tk. \<not> is_digit (lower c)"
  shows "lit_ci tk Some (p @ d # q) = map_option (\<lambda>r. r @ d # q) (lit_ci tk Some p)"
  using assms(2)
proof (induction tk arbitrary: p)
  case Nil
  show ?case by simp
next
  case (Cons c tk)
  show ?case
  proof (cases p)
    case Nil
    have "lower d \<noteq> lower c" using assms(1) Cons.prems by (auto simp: lower_digit)
    then show ?thesis using Nil by simp
  next
    case (Cons x xs)
    then show ?thesis using Cons.IH [of xs] Cons.prems by simp
  qed
qed

lemma noise_tokens_no_digit:
  "list_all (\<lambda>tk. list_all (\<lambda>c. \<not> is_digit (lower c)) tk)
     [''was'', ''orig'', ''originally'', ''save'', ''you save'', ''msrp'']"
  by code_simp

lemma noise_digit:
  assumes "is_digit d"
  shows "noise Some (p @ d # q) = map_option (\<lambda>r. r @ d # q) (noise Some p)"
proof -
  have w: "lit_ci tk Some (p @ d # q) = map_option (\<lambda>r. r @ d # q) (lit_ci tk Some p)"
    if "tk \<in> set [''was'', ''orig'', ''originally'', ''save'', ''you save'', ''msrp'']" for tk
  proof (rule lit_ci_digit [OF assms])
    show "\<forall>c\<in>set tk. \<not> is_digit (lower c)"
      using noise_tokens_no_digit that unfolding list_all_iff by blast
  qed
  have "noise Some (p @ d # q) =
        orelse (lit_ci ''was'' Some (p @ d # q)) (orelse (lit_ci ''orig'' Some (p @ d # q))
          (orelse (lit_ci ''originally'' Some (p @ d # q)) (orelse (lit_ci ''save'' Some (p @ d # q))
            (orelse (lit_ci ''you save'' Some (p @ d # q)) (lit_ci ''msrp'' Some (p @ d # q))))))"
    unfolding noise_def alt_def ..
  also have "\<dots> =
        orelse (map_option (\<lambda>r. r @ d # q) (lit_ci ''was'' Some p))
          (orelse (map_option (\<lambda>r. r @ d # q) (lit_ci ''orig'' Some p))
          (orelse (map_option (\<lambda>r. r @ d # q) (lit_ci ''originally'' Some p))
          (orelse (map_option (\<lambda>r. r @ d # q) (lit_ci ''save'' Some p))
          (orelse (map_option (\<lambda>r. r @ d # q) (lit_ci ''you save'' Some p))
            (map_option (\<lambda>r. r @ d # q) (lit_ci ''msrp'' Some p))))))"
  proof -
    have "lit_ci ''was'' Some (p @ d # q) = map_option (\<lambda>r. r @ d # q) (lit_ci ''was'' Some p)"
      by (rule w) simp
    moreover
    have "lit_ci ''orig'' Some (p @ d # q) = map_option (\<lambda>r. r @ d # q) (lit_ci ''orig'' Some p)"
      by (rule w) simp
    moreover
    have "lit_ci ''originally'' Some (p @ d # q) =
          map_option (\<lambda>r. r @ d # q) (lit_ci ''originally'' Some p)"
      by (rule w) simp
    moreover
    have "lit_ci ''save'' Some (p @ d # q) = map_option (\<lambda>r. r @ d # q) (lit_ci ''save'' Some p)"
      by (rule w) simp
    moreover
    have "lit_ci ''you save'' Some (p @ d # q) =
          map_option (\<lambda>r. r @ d # q) (lit_ci ''you save'' Some p)"
      by (rule w) simp
    moreover
    have "lit_ci ''msrp'' Some (p @ d # q) = map_option (\<lambda>r. r @ d # q) (lit_ci ''msrp'' Some p)"
      by (rule w) simp
    ultimately show ?thesis by (simp only:)
  qed
  also have "\<dots> = map_option (\<lambda>r. r @ d # q) (noise Some p)"
    unfolding noise_def alt_def by (simp only: orelse_map)
  finally show ?thesis .
qed

lemma normalize_digit:
  assumes "is_digit d"
  shows "re_sub_del (noise Some) (p @ d # q) =
         re_sub_del (noise Some) p @ d # re_sub_del (noise Some) q"
proof (induction p rule: length_induct)
  case (1 p)
  show ?case
  proof (cases "noise Some p")
    case None
    then have n: "noise Some (p @ d # q) = None" by (simp add: noise_digit [OF assms])
    show ?thesis
    proof (cases p)
      case Nil
      then show ?thesis using n by (simp add: normalize_step_keep)
    next
      case (Cons c cs)
      then have "re_sub_del (noise Some) (p @ d # q) = c # re_sub_del (noise Some) (cs @ d # q)"
        using n by (simp add: normalize_step_keep)
      moreover have "re_sub_del (noise Some) p = c # re_sub_del (noise Some) cs"
        using None Cons by (simp add: normalize_step_keep)
      ultimately show ?thesis using 1 Cons by simp
    qed
  next
    case (Some r)
    then have "noise Some (p @ d # q) = Some (r @ d # q)" by (simp add: noise_digit [OF assms])
    then have "re_sub_del (noise Some) (p @ d # q) = re_sub_del (noise Some) (r @ d # q)"
      by (rule normalize_step_match)
    moreover have "re_sub_del (noise Some) p = re_sub_del (noise Some) r"
      using Some by (rule normalize_step_match)
    moreover have "length r < length p" using noise_Some [OF Some] by simp
    ultimately show ?thesis using 1 by simp
  qed
qed

lemma normalize_set: "set (re_sub_del (noise Some) s) \<subseteq> set s"
proof (induction s rule: length_induct)
  case (1 s)
  show ?case
  proof (cases "noise Some s")
    case None
    show ?thesis
    proof (cases s)
      case Nil
      then show ?thesis by simp
    next
      case (Cons c cs)
      then have "re_sub_del (noise Some) s = c # re_sub_del (noise Some) cs"
        using None normalize_step_keep [of c cs] by simp
      moreover have "set (re_sub_del (noise Some) cs) \<subseteq> set cs"
        using 1 Cons by simp
      ultimately show ?thesis using Cons by auto
    qed
  next
    case (Some r)
    from noise_Some [OF Some] have r: "length r < length s" "set r \<subseteq> set s" by simp_all
    have "re_sub_del (noise Some) s = re_sub_del (noise Some) r"
      using Some by (rule normalize_step_match)
    moreover have "set (re_sub_del (noise Some) r) \<subseteq> set r"
      using 1 r(1) by simp
    ultimately show ?thesis using r(2) by simp
  qed
qed

lemma normalize_15000:
  "normalize_text (pre @ ''15000'' @ post) = normalize_text pre @ ''15000'' @ normalize_text post"
proof -
  have d: "is_digit CHR ''1''" "is_digit CHR ''5''" "is_digit CHR ''0''" by simp_all
  have e: "re_sub_del (noise Some) (c # q) = c # re_sub_del (noise Some) q" if "is_digit c" for c q
    using normalize_digit [OF that, of "[]" q] by simp
  have "re_sub_del (noise Some) (pre @ CHR ''1'' # ''5000'' @ post) =
        re_sub_del (noise Some) pre @ CHR ''1'' # re_sub_del (noise Some) (''5000'' @ post)"
    by (rule normalize_digit [OF d(1)])
  then show ?thesis by (simp add: normalize_text_def e)
qed

lemma normalize_digit_free: "digit_free s \<Longrightarrow> digit_free (normalize_text s)"
  using normalize_set [of s] by (auto simp: digit_free_def normalize_text_def list_all_iff)

lemma digit_val_simps:
  "digit_val CHR ''0'' = 0" "digit_val CHR ''1'' = 1" "digit_val CHR ''5'' = 5"
  by (simp_all add: digit_val_def)

lemma float_of_15000: "float_of (remove_commas ''15000'') = Some 15000"
  by (simp add: float_of_def remove_commas_def nat_of_digits_def digit_val_simps)

lemma float_of_zeros:
  "float_of (remove_commas ''000.'') = Some 0" "float_of (remove_commas ''00.'') = Some 0"
  "float_of (remove_commas ''0.'') = Some 0"
  by (simp_all add: float_of_def remove_commas_def nat_of_digits_def digit_val_simps)

lemma float_rejected:
  "g \<in> {''15000'', ''000.'', ''00.'', ''0.''} \<Longrightarrow>
   \<exists>v. float_of (remove_commas g) = Some v \<and> \<not> reasonable v"
  using float_of_15000 float_of_zeros by (auto simp: reasonable_def)

lemma candidate_rejected:
  assumes "\<And>g rest. findall p t = g # rest \<Longrightarrow> g \<in> {''15000'', ''000.'', ''00.'', ''0.''}"
  shows "accepted_candidate p t = None"
proof (cases "findall p t")
  case Nil
  then show ?thesis by (simp add: accepted_candidate_def first_candidate_def)
next
  case (Cons g rest)
  from float_rejected [OF assms [OF Cons]] obtain v
    where "float_of (remove_commas g) = Some v" "\<not> reasonable v" by blast
  then show ?thesis using Cons by (simp add: accepted_candidate_def first_candidate_def)
qed

section \<open>What a price pattern matches\<close>

text \<open>
  A match of any of the three patterns takes at least one character, and the text of
  its group has the shape of a number, which \<open>float\<close> parses once the commas are gone:
  in the loop over the patterns the scan of \<open>findall\<close> always moves on behind a match,
  and the handler of \<open>ValueError\<close> is never entered.
\<close>

lemma one_split:
  "one P k s = Some v \<Longrightarrow> \<exists>c r. s = c # r \<and> P c \<and> k r = Some v"
  by (cases s) (auto split: if_splits)

lemma lit_split: "lit l k s = Some v \<Longrightarrow> \<exists>r. s = l @ r \<and> k r = Some v"
proof (induction l arbitrary: s)
  case Nil
  then show ?case by simp
next
  case (Cons c l)
  from Cons.prems have "one (\<lambda>x. x = c) (lit l k) s = Some v" by simp
  from one_split [OF this] obtain r where "s = c # r" "lit l k r = Some v" by blast
  then show ?case using Cons.IH [of r] by auto
qed

lemma times_one_split:
  "times n (one P) k s = Some v \<Longrightarrow>
   \<exists>x r. s = x @ r \<and> length x = n \<and> list_all P x \<and> k r = Some v"
proof (induction n arbitrary: s)
  case 0
  then show ?case by simp
next
  case (Suc n)
  from Suc.prems have "one P (times n (one P) k) s = Some v" by simp
  from one_split [OF this] obtain c r where c: "s = c # r" "P c" "times n (one P) k r = Some v"
    by blast
  from Suc.IH [OF c(3)] obtain x r' where "r = x @ r'" "length x = n" "list_all P x" "k r' = Some v"
    by blast
  then have "s = (c # x) @ r' \<and> length (c # x) = Suc n \<and> list_all P (c # x) \<and> k r' = Some v"
    using c by simp
  then show ?case by blast
qed

lemma orelse_Some: "orelse a b = Some v \<Longrightarrow> a = Some v \<or> b = Some v"
  by (cases a) simp_all

lemma upto_one_split:
  "upto n (one P) k s = Some v \<Longrightarrow>
   \<exists>x r. s = x @ r \<and> length x \<le> n \<and> list_all P x \<and> k r = Some v"
proof (induction n arbitrary: s)
  case 0
  then have "s = [] @ s \<and> length ([] :: string) \<le> 0 \<and> list_all P [] \<and> k s = Some v" by simp
  then show ?case by blast
next
  case (Suc n)
  from Suc.prems have "one P (upto n (one P) k) s = Some v \<or> k s = Some v"
    by (auto dest: orelse_Some)
  then show ?case
  proof
    assume "one P (upto n (one P) k) s = Some v"
    from one_split [OF this] obtain c r where c: "s = c # r" "P c" "upto n (one P) k r = Some v"
      by blast
    from Suc.IH [OF c(3)] obtain x r'
      where "r = x @ r'" "length x \<le> n" "list_all P x" "k r' = Some v" by blast
    then have "s = (c # x) @ r' \<and> length (c # x) \<le> Suc n \<and> list_all P (c # x) \<and> k r' = Some v"
      using c by simp
    then show ?thesis by blast
  next
    assume "k s = Some v"
    then have "s = [] @ s \<and> length ([] :: string) \<le> Suc n \<and> list_all P [] \<and> k s = Some v"
      by simp
    then show ?thesis by blast
  qed
qed

lemma comma_group_split:
  assumes "sq (lit '','') (times 3 (one is_digit)) k s = Some v"
  shows "\<exists>x r. s = x @ r \<and> x \<noteq> [] \<and> list_all (\<lambda>c. is_digit c \<or> c = CHR '','') x \<and> k r = Some v"
proof -
  from assms have "lit '','' (times 3 (one is_digit) k) s = Some v" by (simp only: sq_def)
  from lit_split [OF this] obtain r where r: "s = '','' @ r" "times 3 (one is_digit) k r = Some v"
    by blast
  from times_one_split [OF r(2)] obtain x r'
    where x: "r = x @ r'" "list_all is_digit x" "k r' = Some v" by blast
  have "list_all (\<lambda>c. is_digit c \<or> c = CHR '','') ('','' @ x)"
    using x(2) by (simp add: list_all_iff)
  moreover have "s = ('','' @ x) @ r'" using r(1) x(1) by simp
  ultimately show ?thesis using x(3) by blast
qed

lemma upto_comma_split:
  "upto n (sq (lit '','') (times 3 (one is_digit))) k s = Some v \<Longrightarrow>
   \<exists>x r. s = x @ r \<and> list_all (\<lambda>c. is_digit c \<or> c = CHR '','') x \<and> k r = Some v"
proof (induction n arbitrary: s)
  case 0
  then have "s = [] @ s \<and> list_all (\<lambda>c. is_digit c \<or> c = CHR '','') [] \<and> k s = Some v" by simp
  then show ?case by blast
next
  case (Suc n)
  let ?cg = "sq (lit '','') (times 3 (one is_digit))"
  from Suc.prems have "orelse (?cg (upto n ?cg k) s) (k s) = Some v"
    by (simp only: upto.simps)
  then have "?cg (upto n ?cg k) s = Some v \<or> k s = Some v"
    by (rule orelse_Some)
  then show ?case
  proof
    assume "?cg (upto n ?cg k) s = Some v"
    from comma_group_split [OF this] obtain x r
      where x: "s = x @ r" "list_all (\<lambda>c. is_digit c \<or> c = CHR '','') x" "upto n ?cg k r = Some v"
      by blast
    from Suc.IH [OF x(3)] obtain y r'
      where y: "r = y @ r'" "list_all (\<lambda>c. is_digit c \<or> c = CHR '','') y" "k r' = Some v" by blast
    have "s = (x @ y) @ r' \<and> list_all (\<lambda>c. is_digit c \<or> c = CHR '','') (x @ y) \<and> k r' = Some v"
      using x y by simp
    then show ?thesis by blast
  next
    assume "k s = Some v"
    then have "s = [] @ s \<and> list_all (\<lambda>c. is_digit c \<or> c = CHR '','') [] \<and> k s = Some v" by simp
    then show ?thesis by blast
  qed
qed

lemma number_split:
  assumes "number k s = Some v"
  shows "\<exists>g r. s = g @ r \<and> number_shape g \<and> k r = Some v"
proof -
  let ?k3 = "upto (Suc (Suc 0)) (one is_digit) k"
  let ?k2 = "upto (Suc 0) (lit ''.'') ?k3"
  let ?k1 = "star (sq (lit '','') (times 3 (one is_digit))) ?k2"
  let ?k0 = "upto (Suc (Suc 0)) (one is_digit) ?k1"
  from assms have "one is_digit ?k0 s = Some v" by (simp only: number_unfold)
  from one_split [OF this] obtain c r0 where c: "s = c # r0" "is_digit c" "?k0 r0 = Some v"
    by blast
  from upto_one_split [OF c(3)] obtain x r1
    where x: "r0 = x @ r1" "list_all is_digit x" "?k1 r1 = Some v" by blast
  from x(3) have "upto (length r1) (sq (lit '','') (times 3 (one is_digit))) ?k2 r1 = Some v"
    by (simp only: star_def)
  from upto_comma_split [OF this] obtain cm r2
    where cm: "r1 = cm @ r2" "list_all (\<lambda>c. is_digit c \<or> c = CHR '','') cm" "?k2 r2 = Some v"
    by blast
  from cm(3) have "orelse (lit ''.'' (upto 0 (lit ''.'') ?k3) r2) (?k3 r2) = Some v"
    by (simp only: upto.simps)
  moreover have "upto 0 (lit ''.'') ?k3 = ?k3"
    by (rule ext) simp
  ultimately have "orelse (lit ''.'' ?k3 r2) (?k3 r2) = Some v"
    by (simp only:)
  then have "lit ''.'' ?k3 r2 = Some v \<or> ?k3 r2 = Some v"
    by (rule orelse_Some)
  then obtain dt r3 where dt: "r2 = dt @ r3" "dt = [] \<or> dt = ''.''" "?k3 r3 = Some v"
  proof
    assume "lit ''.'' ?k3 r2 = Some v"
    from lit_split [OF this] obtain r3 where "r2 = ''.'' @ r3" "?k3 r3 = Some v" by blast
    then show ?thesis using that [of "''.''" r3] by simp
  next
    assume "?k3 r2 = Some v"
    then show ?thesis using that [of "[]" r2] by simp
  qed
  from upto_one_split [OF dt(3)] obtain d2 r
    where d2: "r3 = d2 @ r" "list_all is_digit d2" "k r = Some v" by blast
  have "number_shape ((c # x) @ cm @ dt @ d2)"
    unfolding number_shape_def using c(2) x(2) cm(2) dt(2) d2(2) by (intro exI [of _ "c # x"] exI [of _ cm] exI [of _ dt] exI [of _ d2]) simp
  moreover have "s = ((c # x) @ cm @ dt @ d2) @ r"
    using c(1) x(1) cm(1) dt(1) d2(1) by simp
  ultimately show ?thesis using d2(3) by blast
qed

lemma capture_number_split:
  assumes "capture number k s = Some v"
  shows "\<exists>g r. s = g @ r \<and> number_shape g \<and> k g r = Some v"
proof -
  from assms have "number (\<lambda>r. k (take (length s - length r) s) r) s = Some v"
    by (simp only: capture_def)
  from number_split [OF this] obtain g r
    where g: "s = g @ r" "number_shape g" "k (take (length s - length r) s) r = Some v" by blast
  have "take (length s - length r) s = g" using g(1) by simp
  then show ?thesis using g by auto
qed

lemma number_shape_nonempty: "number_shape g \<Longrightarrow> g \<noteq> []"
  by (auto simp: number_shape_def)

lemma bare_pattern_split:
  "bare_pattern s = Some (g, r) \<Longrightarrow> s = g @ r \<and> number_shape g"
proof -
  assume "bare_pattern s = Some (g, r)"
  then have "capture number (\<lambda>g r. Some (g, r)) s = Some (g, r)" by (simp only: bare_pattern_def)
  from capture_number_split [OF this] show ?thesis by auto
qed

lemma dollar_pattern_split:
  "dollar_pattern s = Some (g, r) \<Longrightarrow> s = ''$'' @ g @ r \<and> number_shape g"
proof -
  assume "dollar_pattern s = Some (g, r)"
  then have "lit ''$'' (capture number (\<lambda>g r. Some (g, r))) s = Some (g, r)"
    by (simp only: dollar_pattern_def)
  from lit_split [OF this] obtain r0
    where r0: "s = ''$'' @ r0" "capture number (\<lambda>g r. Some (g, r)) r0 = Some (g, r)" by blast
  from capture_number_split [OF r0(2)] r0(1) show ?thesis by auto
qed

lemma usd_pattern_split:
  assumes "usd_pattern s = Some (g, r)"
  shows "\<exists>w. s = g @ w @ ''USD'' @ r \<and> list_all is_space w \<and> number_shape g"
proof -
  from assms have
    "capture number (\<lambda>g. sq (star (one is_space)) (lit ''USD'') (\<lambda>r. Some (g, r))) s = Some (g, r)"
    by (simp only: usd_pattern_def)
  from capture_number_split [OF this] obtain g0 r0
    where g0: "s = g0 @ r0" "number_shape g0"
      "sq (star (one is_space)) (lit ''USD'') (\<lambda>r. Some (g0, r)) r0 = Some (g, r)" by blast
  from g0(3) have "upto (length r0) (one is_space) (lit ''USD'' (\<lambda>r. Some (g0, r))) r0 = Some (g, r)"
    by (simp only: sq_def star_def)
  from upto_one_split [OF this] obtain w r1
    where w: "r0 = w @ r1" "list_all is_space w" "lit ''USD'' (\<lambda>r. Some (g0, r)) r1 = Some (g, r)"
    by blast
  from lit_split [OF w(3)] obtain r2 where "r1 = ''USD'' @ r2" "Some (g0, r2) = Some (g, r)"
    by blast
  then have "s = g @ w @ ''USD'' @ r" "number_shape g" using g0 w by simp_all
  then show ?thesis using w(2) by blast
qed

lemma price_pattern_match:
  assumes "p \<in> set price_patterns" and "p s = Some (g, r)"
  shows "number_shape g \<and> length r < length s"
proof -
  from assms(1) have "p = dollar_pattern \<or> p = usd_pattern \<or> p = bare_pattern"
    by (simp add: price_patterns_def)
  then show ?thesis
  proof (elim disjE)
    assume "p = dollar_pattern"
    then show ?thesis using dollar_pattern_split [of s g r] assms(2) by auto
  next
    assume "p = usd_pattern"
    then show ?thesis using usd_pattern_split [of s g r] assms(2) number_shape_nonempty [of g]
      by auto
  next
    assume "p = bare_pattern"
    then show ?thesis using bare_pattern_split [of s g r] assms(2) number_shape_nonempty [of g]
      by auto
  qed
qed

lemma remove_commas_digits:
  "list_all (\<lambda>c. is_digit c \<or> c = CHR '','') cm \<Longrightarrow> list_all is_digit (remove_commas cm)"
  by (induction cm) (auto simp: remove_commas_def)

lemma remove_commas_keeps: "list_all is_digit d \<Longrightarrow> remove_commas d = d"
  by (induction d) (auto simp: remove_commas_def)

lemma float_of_digits:
  assumes "list_all is_digit ds" and "ds \<noteq> []"
  shows "float_of ds = Some (real (nat_of_digits ds))"
proof -
  have tw: "takeWhile is_digit ds = ds" "dropWhile is_digit ds = []"
    using assms(1) by (simp_all add: list_all_iff)
  show ?thesis unfolding float_of_def tw using assms(2) by simp
qed

lemma float_of_point:
  assumes "list_all is_digit ds" and "ds \<noteq> []" and "list_all is_digit fs"
  shows "float_of (ds @ ''.'' @ fs) =
         Some (real (nat_of_digits ds) + real (nat_of_digits fs) / 10 ^ length fs)"
proof -
  have tw: "takeWhile is_digit (ds @ ''.'' @ fs) = ds"
    "dropWhile is_digit (ds @ ''.'' @ fs) = ''.'' @ fs"
    using assms(1) by (simp_all add: list_all_iff)
  show ?thesis unfolding float_of_def tw using assms(2,3) by simp
qed

lemma float_of_shape:
  assumes "number_shape g"
  shows "\<exists>v. float_of (remove_commas g) = Some v"
proof -
  from assms obtain d1 cm dt d2 where g: "g = d1 @ cm @ dt @ d2" "d1 \<noteq> []" "list_all is_digit d1"
    "list_all (\<lambda>c. is_digit c \<or> c = CHR '','') cm" "dt = [] \<or> dt = ''.''" "list_all is_digit d2"
    unfolding number_shape_def by blast
  let ?ds = "d1 @ remove_commas cm"
  have ds: "list_all is_digit ?ds" "?ds \<noteq> []"
    using g(2,3) remove_commas_digits [OF g(4)] by simp_all
  have rc: "remove_commas g = ?ds @ dt @ d2"
    using g(1,5) remove_commas_keeps [OF g(3)] remove_commas_keeps [OF g(6)]
    by (auto simp: remove_commas_def)
  from g(5) show ?thesis
  proof
    assume "dt = []"
    then have "remove_commas g = ?ds @ d2" using rc by simp
    moreover have "list_all is_digit (?ds @ d2)" "?ds @ d2 \<noteq> []" using ds g(6) by auto
    ultimately show ?thesis using float_of_digits by metis
  next
    assume "dt = ''.''"
    then have "remove_commas g = ?ds @ ''.'' @ d2" using rc by simp
    then show ?thesis using float_of_point [OF ds g(6)] by simp
  qed
qed

lemma price_pattern_parses:
  "p \<in> set price_patterns \<Longrightarrow> p s = Some (g, r) \<Longrightarrow> \<exists>v. float_of (remove_commas g) = Some v"
  using price_pattern_match float_of_shape by blast

section \<open>The claim about the out-of-range number\<close>

text \<open>
  C8. A text whose only digits are those of the token \<open>15000\<close> gives no price, although
  the bare-number pattern matches the token: the number 15000 it parses to is above
  10000.
\<close>

theorem only_15000_gives_no_price:
  assumes "digit_free pre" and "digit_free post"
  shows "extract_price_from_text (pre @ ''15000'' @ post) = None
       \<and> (\<exists>rest. findall bare_pattern (normalize_text (pre @ ''15000'' @ post)) = ''15000'' # rest)
       \<and> float_of (remove_commas ''15000'') = Some 15000
       \<and> \<not> reasonable 15000"
proof -
  let ?a = "normalize_text pre" and ?b = "normalize_text post"
  have a: "\<forall>c\<in>set ?a. \<not> is_digit c" and b: "\<forall>c\<in>set ?b. \<not> is_digit c"
    using normalize_digit_free [OF assms(1)] normalize_digit_free [OF assms(2)]
    by (simp_all add: digit_free_def list_all_iff)
  have t: "normalize_text (pre @ ''15000'' @ post) = ?a @ ''15000'' @ ?b"
    by (rule normalize_15000)
  have "accepted_candidate dollar_pattern (?a @ ''15000'' @ ?b) = None"
    using dollar_head [OF a b] by (intro candidate_rejected) simp
  moreover have "accepted_candidate usd_pattern (?a @ ''15000'' @ ?b) = None"
    using usd_head_prefix [OF a b] by (intro candidate_rejected)
  moreover have bare: "\<exists>rest. findall bare_pattern (?a @ ''15000'' @ ?b) = ''15000'' # rest"
    by (rule bare_head [OF a])
  then have "accepted_candidate bare_pattern (?a @ ''15000'' @ ?b) = None"
    by (intro candidate_rejected) auto
  ultimately have "earliest_accepted price_patterns (?a @ ''15000'' @ ?b) = None"
    by (simp add: earliest_accepted_def price_patterns_def)
  then have "extract_price_from_text (pre @ ''15000'' @ post) = None"
    using t by (simp add: extract_price_from_text_def try_patterns_earliest)
  moreover note float_of_15000
  moreover have "\<not> reasonable 15000" by (simp add: reasonable_def)
  ultimately show ?thesis using bare t by simp
qed

text \<open>A line of an order is an instance.\<close>

theorem only_15000_gives_no_price_witness:
  "digit_free ''Total: '' \<and> digit_free '' units''
   \<and> extract_price_from_text ''Total: 15000 units'' = None"
proof -
  have h: "digit_free ''Total: ''" "digit_free '' units''"
    by (simp_all add: digit_free_def is_digit_def digit_chars_def)
  from only_15000_gives_no_price [OF h] h show ?thesis by simp
qed

end
